theory Spec2Isabelle
  imports Main
begin

section \<open>Strings of the dump\<close>

text \<open>
  The parser of \<^verbatim>\<open>merge.py\<close> works on Python \<^verbatim>\<open>str\<close> values. A \<^typ>\<open>char\<close> stands
  for one code point below 256 (the Latin-1 range), so \<^typ>\<open>string\<close> covers every text
  over that range; all the syntax the parser looks at (keywords, quotes, commas,
  parentheses, semicolons) lives there. Code points from 256 on are outside the model.
\<close>

abbreviation SQ :: char where
  "SQ \<equiv> CHR 0x27"

abbreviation DQ :: char where
  "DQ \<equiv> CHR 0x22"

text \<open>
  Python's \<^verbatim>\<open>str.isspace\<close> on one character, which is also what \<^verbatim>\<open>\s\<close> matches in a
  \<^verbatim>\<open>str\<close> pattern: tab, line feed, vertical tab, form feed, carriage return, the four
  separators 0x1C..0x1F, space, and in the Latin-1 range NEL (0x85) and the no-break
  space (0xA0).
\<close>

definition is_space :: "char \<Rightarrow> bool" where
  "is_space c \<longleftrightarrow>
     c \<in> set [CHR 0x09, CHR 0x0A, CHR 0x0B, CHR 0x0C, CHR 0x0D,
              CHR 0x1C, CHR 0x1D, CHR 0x1E, CHR 0x1F, CHR 0x20, CHR 0x85, CHR 0xA0]"

text \<open>\<^verbatim>\<open>s.strip(chars)\<close>: drop every leading and every trailing character of the set.\<close>

definition strip_chars :: "(char \<Rightarrow> bool) \<Rightarrow> string \<Rightarrow> string" where
  "strip_chars P s = rev (dropWhile P (rev (dropWhile P s)))"

text \<open>\<^verbatim>\<open>s.strip()\<close>: the set is the whitespace characters.\<close>

definition strip :: "string \<Rightarrow> string" where
  "strip s = strip_chars is_space s"

text \<open>The test \<^verbatim>\<open>ch in ("'", '"')\<close>.\<close>

definition is_quote :: "char \<Rightarrow> bool" where
  "is_quote c \<longleftrightarrow> c = SQ \<or> c = DQ"

section \<open>The value tokenizer\<close>

text \<open>
  The \<^verbatim>\<open>while i < len(s)\<close> loop of \<^verbatim>\<open>split_sql_values\<close>. The first argument is
  \<^verbatim>\<open>s[i:]\<close>, then the loop's variables: \<^verbatim>\<open>res\<close>, \<^verbatim>\<open>cur\<close> (kept joined, as
  \<^verbatim>\<open>''.join(cur)\<close> reads it), \<^verbatim>\<open>in_quote\<close> and \<^verbatim>\<open>quote_char\<close> (the empty string or
  a one-character string, as in the source). The equation for the empty rest is the
  code after the loop.
\<close>

fun scan_values :: "string \<Rightarrow> string list \<Rightarrow> string \<Rightarrow> bool \<Rightarrow> string \<Rightarrow> string list" where
  "scan_values [] res cur in_quote quote_char = res @ [strip cur]"
| "scan_values (ch # s) res cur in_quote quote_char =
     (if is_quote ch then
        (if \<not> in_quote then scan_values s res cur True [ch]
         else if [ch] = quote_char then
           (case s of
              c2 # s' \<Rightarrow>
                (if [c2] = quote_char then scan_values s' res (cur @ quote_char) in_quote quote_char
                 else scan_values s res cur False [])
            | [] \<Rightarrow> scan_values s res cur False [])
         else scan_values s res (cur @ [ch]) in_quote quote_char)
      else if ch = CHR '','' \<and> \<not> in_quote then scan_values s (res @ [strip cur]) [] in_quote quote_char
      else scan_values s res (cur @ [ch]) in_quote quote_char)"

definition split_sql_values :: "string \<Rightarrow> string list" where
  "split_sql_values s = scan_values s [] [] False []"

text \<open>
  Line 99, \<^verbatim>\<open>clean = [p.strip().strip("'\"") for p in parts]\<close>: the record as it is
  appended to \<^verbatim>\<open>items\<close>.
\<close>

definition clean_token :: "string \<Rightarrow> string" where
  "clean_token p = strip_chars is_quote (strip p)"

definition clean_record :: "string \<Rightarrow> string list" where
  "clean_record rec = map clean_token (split_sql_values rec)"

text \<open>
  A reference for the statements about the tokenizer, not a part of the program: the
  pieces of a text cut at every comma, \<^verbatim>\<open>(cur + s).split(',')\<close> for a \<open>cur\<close> without
  a comma. The first piece continues \<open>cur\<close>.
\<close>

fun comma_fields :: "string \<Rightarrow> string \<Rightarrow> string list" where
  "comma_fields cur [] = [cur]"
| "comma_fields cur (c # s) =
     (if c = CHR '','' then cur # comma_fields [] s else comma_fields (cur @ [c]) s)"

section \<open>The regular expressions\<close>

text \<open>
  Case folding of \<^verbatim>\<open>re.IGNORECASE\<close> on the Latin-1 range: the lower-case mapping
  sends A..Z and the accented capitals 0xC0..0xDE (but not the multiplication sign 0xD7)
  32 places up and leaves every other character alone. A pattern character matches a
  text character when both have the same lower case.
\<close>

definition to_lower :: "char \<Rightarrow> char" where
  "to_lower c =
     (let n = (of_char c :: nat)
      in if (65 \<le> n \<and> n \<le> 90) \<or> (192 \<le> n \<and> n \<le> 222 \<and> n \<noteq> 215)
         then char_of (n + 32) else c)"

text \<open>
  The two character classes of the patterns: \<^verbatim>\<open>\s\<close>, and \<^verbatim>\<open>.\<close> under
  \<^verbatim>\<open>re.DOTALL\<close>, which matches every character, the line feed included.
\<close>

datatype cls = Space | AnyChar

fun in_cls :: "cls \<Rightarrow> char \<Rightarrow> bool" where
  "in_cls Space c = is_space c"
| "in_cls AnyChar c = True"

text \<open>
  The pieces a pattern of this program is a sequence of: a literal matched exactly, a
  literal matched ignoring case, an optional character (\<^verbatim>\<open>x?\<close>), a greedy repetition
  of a class with its least count (\<^verbatim>\<open>\s*\<close> is \<open>Many Space 0\<close>, \<^verbatim>\<open>\s+\<close> is
  \<open>Many Space 1\<close>), and the same repetition as capturing group 1.
\<close>

datatype atom = Lit string | LitI string | Opt char | Many cls nat | Capture cls nat

fun lit_prefix :: "(char \<Rightarrow> char \<Rightarrow> bool) \<Rightarrow> string \<Rightarrow> string \<Rightarrow> string option" where
  "lit_prefix eq [] s = Some s"
| "lit_prefix eq (p # ps) [] = None"
| "lit_prefix eq (p # ps) (c # s) = (if eq p c then lit_prefix eq ps s else None)"

definition ci_eq :: "char \<Rightarrow> char \<Rightarrow> bool" where
  "ci_eq p c \<longleftrightarrow> to_lower c = to_lower p"

text \<open>
  Every way to cut \<open>s\<close> into a run of characters of the class and a rest, the longest
  run first: the order in which a greedy repetition tries them.
\<close>

fun splits :: "(char \<Rightarrow> bool) \<Rightarrow> string \<Rightarrow> (string \<times> string) list" where
  "splits P [] = [([], [])]"
| "splits P (x # xs) =
     (if P x then map (\<lambda>(p, r). (x # p, r)) (splits P xs) else []) @ [([], x # xs)]"

fun first_some :: "('a \<Rightarrow> 'b option) \<Rightarrow> 'a list \<Rightarrow> 'b option" where
  "first_some f [] = None"
| "first_some f (x # xs) = (case f x of Some y \<Rightarrow> Some y | None \<Rightarrow> first_some f xs)"

text \<open>
  The backtracking matcher of \<^verbatim>\<open>re\<close>, anchored at the start of \<open>s\<close>: the first
  success in the order of preference, as the text of group 1 and the text left after the
  match. \<open>g\<close> is group 1 so far.
\<close>

fun match_atoms :: "atom list \<Rightarrow> string \<Rightarrow> string \<Rightarrow> (string \<times> string) option" where
  "match_atoms [] s g = Some (g, s)"
| "match_atoms (Lit l # as) s g =
     (case lit_prefix (=) l s of Some r \<Rightarrow> match_atoms as r g | None \<Rightarrow> None)"
| "match_atoms (LitI l # as) s g =
     (case lit_prefix ci_eq l s of Some r \<Rightarrow> match_atoms as r g | None \<Rightarrow> None)"
| "match_atoms (Opt c # as) s g =
     (case lit_prefix ci_eq [c] s of
        Some r \<Rightarrow> (case match_atoms as r g of Some m \<Rightarrow> Some m | None \<Rightarrow> match_atoms as s g)
      | None \<Rightarrow> match_atoms as s g)"
| "match_atoms (Many k n # as) s g =
     first_some (\<lambda>(p, r). match_atoms as r g)
       (filter (\<lambda>(p, r). n \<le> length p) (splits (in_cls k) s))"
| "match_atoms (Capture k n # as) s g =
     first_some (\<lambda>(p, r). match_atoms as r p)
       (filter (\<lambda>(p, r). n \<le> length p) (splits (in_cls k) s))"

text \<open>
  Line 49: \<^verbatim>\<open>INSERT\s+INTO\s+`?\<close> + \<^verbatim>\<open>re.escape(table_name)\<close> + \<^verbatim>\<open>`?\s+VALUES\s*(.+);\<close>
  with \<^verbatim>\<open>re.IGNORECASE | re.DOTALL\<close>. \<^verbatim>\<open>re.escape\<close> makes every character of the
  table name a literal.
\<close>

definition insert_pattern :: "string \<Rightarrow> atom list" where
  "insert_pattern table_name =
     [LitI ''INSERT'', Many Space 1, LitI ''INTO'', Many Space 1, Opt (CHR 0x60),
      LitI table_name, Opt (CHR 0x60), Many Space 1, LitI ''VALUES'', Many Space 0,
      Capture AnyChar 1, LitI '';'']"

text \<open>Line 59: the pattern \<^verbatim>\<open>\),\s*\(\<close> of \<^verbatim>\<open>re.split\<close>, no flags.\<close>

definition record_sep :: "atom list" where
  "record_sep = [Lit '')'', Lit '','', Many Space 0, Lit ''('']"

subsection \<open>A match is shorter than the text it was found in\<close>

lemma lit_prefix_length: "lit_prefix eq l s = Some r \<Longrightarrow> length s = length l + length r"
  by (induction eq l s rule: lit_prefix.induct) (auto split: if_splits)

lemma splits_append: "(p, r) \<in> set (splits P s) \<Longrightarrow> s = p @ r"
  by (induction s arbitrary: p r) (auto split: if_splits)

lemma first_some_SomeD: "first_some f xs = Some y \<Longrightarrow> \<exists>x\<in>set xs. f x = Some y"
  by (induction xs) (auto split: option.splits)

lemma match_atoms_length: "match_atoms as s g = Some (g', r) \<Longrightarrow> length r \<le> length s"
proof (induction as arbitrary: s g g' r)
  case Nil
  then show ?case by simp
next
  case (Cons a as)
  show ?case
  proof (cases a)
    case (Lit l)
    with Cons.prems obtain r0 where
      "lit_prefix (=) l s = Some r0" "match_atoms as r0 g = Some (g', r)"
      by (auto split: option.splits)
    then show ?thesis using Cons.IH lit_prefix_length by fastforce
  next
    case (LitI l)
    with Cons.prems obtain r0 where
      "lit_prefix ci_eq l s = Some r0" "match_atoms as r0 g = Some (g', r)"
      by (auto split: option.splits)
    then show ?thesis using Cons.IH lit_prefix_length by fastforce
  next
    case (Opt c)
    with Cons.prems consider "match_atoms as s g = Some (g', r)"
      | r0 where "lit_prefix ci_eq [c] s = Some r0" "match_atoms as r0 g = Some (g', r)"
      by (auto split: option.splits)
    then show ?thesis
    proof cases
      case 1
      then show ?thesis using Cons.IH by blast
    next
      case 2
      then show ?thesis using Cons.IH lit_prefix_length by fastforce
    qed
  next
    case (Many k n)
    with Cons.prems obtain p r0 where
      "(p, r0) \<in> set (splits (in_cls k) s)" "match_atoms as r0 g = Some (g', r)"
      by (auto dest!: first_some_SomeD)
    then show ?thesis using Cons.IH splits_append by fastforce
  next
    case (Capture k n)
    with Cons.prems obtain p r0 where
      "(p, r0) \<in> set (splits (in_cls k) s)" "match_atoms as r0 p = Some (g', r)"
      by (auto dest!: first_some_SomeD)
    then show ?thesis using Cons.IH splits_append by fastforce
  qed
qed

lemma match_LitI_length:
  "match_atoms (LitI l # as) s g = Some (g', r) \<Longrightarrow> length r + length l \<le> length s"
  by (auto split: option.splits dest!: lit_prefix_length match_atoms_length)

lemma match_Lit_length:
  "match_atoms (Lit l # as) s g = Some (g', r) \<Longrightarrow> length r + length l \<le> length s"
  by (auto split: option.splits dest!: lit_prefix_length match_atoms_length)

lemma insert_pattern_shorter:
  "match_atoms (insert_pattern tn) s g = Some (g', r) \<Longrightarrow> length r < length s"
  unfolding insert_pattern_def by (drule match_LitI_length) simp

lemma record_sep_shorter:
  "match_atoms record_sep s g = Some (g', r) \<Longrightarrow> length r < length s"
  unfolding record_sep_def by (drule match_Lit_length) simp

section \<open>The statement extractor and the record assembler\<close>

text \<open>
  \<^verbatim>\<open>pattern.finditer(sql_text)\<close>, as the list of \<^verbatim>\<open>m.group(1)\<close> of its matches. The
  argument is the text from the current search position on: a match is looked for
  there, then one character further, and after a match the search goes on where the
  match ended (a match of this pattern is never empty).
\<close>

function finditer :: "string \<Rightarrow> string \<Rightarrow> string list" where
  "finditer table_name s =
     (case match_atoms (insert_pattern table_name) s [] of
        Some (g, rest) \<Rightarrow> g # finditer table_name rest
      | None \<Rightarrow> (case s of [] \<Rightarrow> [] | c # s' \<Rightarrow> finditer table_name s'))"
  by pat_completeness auto
termination
  by (relation "measure (\<lambda>(t, s). length s)") (auto dest: insert_pattern_shorter)

declare finditer.simps [simp del]

text \<open>
  \<^verbatim>\<open>re.split(r"\),\s*\(", s)\<close>: the pieces of \<open>s\<close> between the matches of the
  separator, found from left to right. \<open>cur\<close> is the piece since the last match.
\<close>

function split_pieces :: "string \<Rightarrow> string \<Rightarrow> string list" where
  "split_pieces cur s =
     (case match_atoms record_sep s [] of
        Some (g, rest) \<Rightarrow> cur # split_pieces [] rest
      | None \<Rightarrow> (case s of [] \<Rightarrow> [cur] | c # s' \<Rightarrow> split_pieces (cur @ [c]) s'))"
  by pat_completeness auto
termination
  by (relation "measure (\<lambda>(c, s). length s)") (auto dest: record_sep_shorter)

declare split_pieces.simps [simp del]

definition re_split :: "string \<Rightarrow> string list" where
  "re_split s = split_pieces [] s"

definition startswith :: "string \<Rightarrow> char \<Rightarrow> bool" where
  "startswith s c = (case s of [] \<Rightarrow> False | x # xs \<Rightarrow> x = c)"

definition endswith :: "string \<Rightarrow> char \<Rightarrow> bool" where
  "endswith s c = (case rev s of [] \<Rightarrow> False | x # xs \<Rightarrow> x = c)"

text \<open>
  Lines 52 to 61, from \<^verbatim>\<open>m.group(1)\<close> to \<^verbatim>\<open>records\<close>. \<^verbatim>\<open>vals[1:-1]\<close> is taken
  only of a string that starts with one character and ends with another, so it drops
  the first and the last character.
\<close>

definition split_records :: "string \<Rightarrow> string list" where
  "split_records group1 =
     (let vals = strip group1
      in if startswith vals (CHR ''('') \<and> endswith vals (CHR '')'')
         then re_split (butlast (tl vals)) else [vals])"

text \<open>Lines 50 to 100: \<^verbatim>\<open>items\<close> when the loop over the matches has ended.\<close>

definition collect_items :: "string \<Rightarrow> string \<Rightarrow> string list list" where
  "collect_items sql_text table_name =
     concat (map (\<lambda>g. map clean_record (split_records g)) (finditer table_name sql_text))"

section \<open>The table materializer\<close>

datatype error = FileNotFoundError | ValueError

text \<open>
  A pandas \<^verbatim>\<open>DataFrame\<close> as far as this program looks at it: the column labels and
  the rows, a cell being a string or missing (\<open>None\<close>).
\<close>

record dataframe =
  columns :: "string list"
  rows :: "string option list list"

text \<open>\<^verbatim>\<open>pd.DataFrame()\<close>: no columns, no rows.\<close>

definition empty_frame :: dataframe where
  "empty_frame = \<lparr>columns = [], rows = []\<rparr>"

text \<open>\<^verbatim>\<open>df.empty\<close>: one of the two axes has length 0.\<close>

definition df_empty :: "dataframe \<Rightarrow> bool" where
  "df_empty df \<longleftrightarrow> rows df = [] \<or> columns df = []"

text \<open>
  Modelled from the spec: \<^verbatim>\<open>pd.DataFrame(items, columns=cols)\<close> on a list of
  lists, which is pandas and not under src/. The table is as wide as the longest row,
  a shorter row is filled up with missing values (section 3, MaterializedTable: rows
  shorter than this length are padded with missing values), and as pandas does the
  constructor raises when the number of labels passed is not that width.
\<close>

definition DataFrame :: "string list list \<Rightarrow> string list \<Rightarrow> error + dataframe" where
  "DataFrame items cols =
     (if items = [] then Inr \<lparr>columns = cols, rows = []\<rparr>
      else let width = fold max (map length items) 0
           in if length cols \<noteq> width then Inl ValueError
              else Inr \<lparr>columns = cols,
                        rows = map (\<lambda>r. map Some r @ replicate (width - length r) None) items\<rparr>)"

text \<open>\<^verbatim>\<open>max(...)\<close> of Python, which raises on an empty sequence.\<close>

fun py_max :: "nat list \<Rightarrow> error + nat" where
  "py_max [] = Inl ValueError"
| "py_max (x # xs) = Inr (fold max xs x)"

text \<open>\<^verbatim>\<open>str(n)\<close> of a natural number: its decimal digits.\<close>

fun str_nat :: "nat \<Rightarrow> string" where
  "str_nat n =
     (if n < 10 then [''0123456789'' ! n]
      else str_nat (n div 10) @ [''0123456789'' ! (n mod 10)])"

text \<open>Lines 101 to 107.\<close>

definition materialize :: "string list list \<Rightarrow> error + dataframe" where
  "materialize items =
     (if items = [] then Inr empty_frame
      else case py_max (map length items) of
             Inl e \<Rightarrow> Inl e
           | Inr max_cols \<Rightarrow>
               DataFrame items (map (\<lambda>i. ''col_'' @ str_nat (i + 1)) [0..<max_cols]))"

definition parse_sql_inserts :: "string \<Rightarrow> string \<Rightarrow> error + dataframe" where
  "parse_sql_inserts sql_text table_name = materialize (collect_items sql_text table_name)"

text \<open>
  \<^verbatim>\<open>df.rename(columns={...})\<close>: a label that is a key of the dictionary is replaced by
  its value. In a dictionary display a later entry with the same key wins.
\<close>

definition rename_columns :: "(string \<times> string) list \<Rightarrow> dataframe \<Rightarrow> dataframe" where
  "rename_columns d df =
     df\<lparr>columns := map (\<lambda>c. case map_of (rev d) c of Some n \<Rightarrow> n | None \<Rightarrow> c) (columns df)\<rparr>"

text \<open>
  \<^verbatim>\<open>load_restaurants\<close>. The file system is an argument: \<open>sql_file\<close> is the text of
  the file at \<^verbatim>\<open>sql_path\<close>, \<open>None\<close> when there is no such file; \<open>csv_fallback\<close> is
  what \<^verbatim>\<open>pd.read_csv\<close> returns for the fallback, \<open>None\<close> when no fallback path was
  passed or no file is there.
\<close>

definition load_restaurants :: "string option \<Rightarrow> dataframe option \<Rightarrow> error + dataframe" where
  "load_restaurants sql_file csv_fallback =
     (case csv_fallback of
        Some df \<Rightarrow> Inr (df\<lparr>columns := map strip (columns df)\<rparr>)
      | None \<Rightarrow>
          (case sql_file of
             None \<Rightarrow> Inl FileNotFoundError
           | Some text \<Rightarrow>
               (case parse_sql_inserts text ''restaurants'' of
                  Inl e \<Rightarrow> Inl e
                | Inr df \<Rightarrow>
                    if df_empty df then Inl ValueError
                    else if length (columns df) \<ge> 4
                    then Inr (rename_columns
                                [(columns df ! 0, ''restaurant_id''),
                                 (columns df ! 1, ''restaurant_name''),
                                 (columns df ! 2, ''cuisine''),
                                 (columns df ! 3, ''rating'')] df)
                    else Inr df)))"

section \<open>Properties of the value tokenizer\<close>

lemmas tok_defs = split_sql_values_def clean_record_def clean_token_def strip_def strip_chars_def
  is_space_def is_quote_def

lemma scan_values_length: "length res < length (scan_values s res cur in_quote quote_char)"
proof (induction s res cur in_quote quote_char rule: scan_values.induct)
  case (1 res cur in_quote quote_char)
  then show ?case by simp
next
  case (2 ch s res cur in_quote quote_char)
  show ?case
  proof (cases s)
    case Nil
    with 2 show ?thesis by (simp split: if_splits)
  next
    case (Cons c2 s')
    with 2 show ?thesis by (simp split: if_splits) fastforce
  qed
qed

lemma scan_values_unterminated:
  "q \<notin> set s \<Longrightarrow> scan_values s res cur True [q] = res @ [strip (cur @ s)]"
  by (induction s arbitrary: cur) auto

lemma comma_fields_nonempty: "comma_fields cur s \<noteq> []"
  by (induction s arbitrary: cur) auto

lemma scan_values_unquoted:
  "\<forall>c\<in>set pre. \<not> is_quote c \<Longrightarrow>
   scan_values (pre @ t) res cur False quote_char
     = scan_values t (res @ map strip (butlast (comma_fields cur pre)))
         (last (comma_fields cur pre)) False quote_char"
proof (induction pre arbitrary: res cur)
  case Nil
  then show ?case by simp
next
  case (Cons c pre)
  then show ?case by (simp add: comma_fields_nonempty)
qed

lemma scan_values_quoted:
  "q \<notin> set mid \<Longrightarrow>
   scan_values (mid @ t) res cur True [q] = scan_values t res (cur @ mid) True [q]"
  by (induction mid arbitrary: cur) auto

lemma map_strip_fields:
  "map strip (butlast (comma_fields cur s)) @ [strip (last (comma_fields cur s))]
     = map strip (comma_fields cur s)"
  using comma_fields_nonempty [of cur s]
  by (metis append_butlast_last_id list.simps(8,9) map_append)

text \<open>
  C4. Inside quotes, the active quote character followed at once by itself is an escaped
  quote: the loop goes on two characters further with exactly one quote character added
  to the current field, still in quotes. The record \<^verbatim>\<open>'O''Brien'\<close> gives the one field
  \<^verbatim>\<open>O'Brien\<close>, from the tokenizer and in the assembled record.
\<close>

theorem escaped_quote:
  assumes "is_quote q"
  shows "scan_values (q # q # s) res cur True [q] = scan_values s res (cur @ [q]) True [q]
    \<and> split_sql_values (SQ # ''O'' @ [SQ, SQ] @ ''Brien'' @ [SQ]) = [''O'Brien'']
    \<and> clean_record (SQ # ''O'' @ [SQ, SQ] @ ''Brien'' @ [SQ]) = [''O'Brien'']"
proof (intro conjI)
  show "scan_values (q # q # s) res cur True [q] = scan_values s res (cur @ [q]) True [q]"
    using assms by simp
  show "split_sql_values (SQ # ''O'' @ [SQ, SQ] @ ''Brien'' @ [SQ]) = [''O'Brien'']"
    by (simp add: tok_defs)
  show "clean_record (SQ # ''O'' @ [SQ, SQ] @ ''Brien'' @ [SQ]) = [''O'Brien'']"
    by (simp add: tok_defs)
qed

theorem escaped_quote_witness:
  "is_quote DQ \<and> scan_values (DQ # DQ # ''b,c'') [''x''] ''a'' True [DQ]
      = scan_values ''b,c'' [''x''] (''a'' @ [DQ]) True [DQ]"
  using escaped_quote [of DQ "''b,c''" "[''x'']" "''a''"] by (simp add: is_quote_def)

text \<open>
  C5. A comma met outside quotes ends the current field, which is appended trimmed, and
  a new empty field begins; a comma met inside quotes is appended to the current field.
  The record \<^verbatim>\<open>'Tom, Jerry'\<close> gives the one field \<^verbatim>\<open>Tom, Jerry\<close>; without the quotes
  it gives two.
\<close>

theorem comma_boundary:
  "scan_values (CHR '','' # s) res cur False quote_char
     = scan_values s (res @ [strip cur]) [] False quote_char
   \<and> scan_values (CHR '','' # s) res cur True quote_char
     = scan_values s res (cur @ '','') True quote_char
   \<and> split_sql_values (SQ # ''Tom, Jerry'' @ [SQ]) = [''Tom, Jerry'']
   \<and> split_sql_values ''Tom, Jerry'' = [''Tom'', ''Jerry'']"
proof (intro conjI)
  show "scan_values (CHR '','' # s) res cur False quote_char
     = scan_values s (res @ [strip cur]) [] False quote_char"
    by (simp add: is_quote_def)
  show "scan_values (CHR '','' # s) res cur True quote_char
     = scan_values s res (cur @ '','') True quote_char"
    by (simp add: is_quote_def)
  show "split_sql_values (SQ # ''Tom, Jerry'' @ [SQ]) = [''Tom, Jerry'']"
    by (simp add: tok_defs)
  show "split_sql_values ''Tom, Jerry'' = [''Tom'', ''Jerry'']"
    by (simp add: tok_defs)
qed

text \<open>
  C8. The tokenizer is a total function with no failing branch. At the end of the string
  the field in progress is appended whatever the quoting state, so the result is never
  empty and the empty record gives one empty field. Inside a quote that is never closed
  the rest of the string is added to the field in progress, whatever the fields and the
  field so far, and that field is appended trimmed. A record without a quote character
  gives its pieces between the commas, trimmed; a record whose first quote character,
  after any number of unquoted fields, is never closed gives those fields and then one
  last field made of the field in progress and everything after the quote:
  \<^verbatim>\<open>a,'b,c\<close> gives \<^verbatim>\<open>a\<close> and \<^verbatim>\<open>b,c\<close>.
\<close>

theorem tokenizer_total:
  "scan_values [] res cur in_quote quote_char = res @ [strip cur]
   \<and> split_sql_values s \<noteq> []
   \<and> split_sql_values [] = [[]]
   \<and> (q \<notin> set s \<longrightarrow> scan_values s res cur True [q] = res @ [strip (cur @ s)])
   \<and> (is_quote q \<and> q \<notin> set s \<longrightarrow> split_sql_values (q # s) = [strip s])
   \<and> ((\<forall>c\<in>set s. \<not> is_quote c) \<longrightarrow> split_sql_values s = map strip (comma_fields [] s))
   \<and> (is_quote q \<and> (\<forall>c\<in>set pre. \<not> is_quote c) \<and> q \<notin> set s \<longrightarrow>
        split_sql_values (pre @ q # s)
          = map strip (butlast (comma_fields [] pre)) @ [strip (last (comma_fields [] pre) @ s)])
   \<and> split_sql_values ''a,'b,c'' = [''a'', ''b,c'']
   \<and> split_sql_values ''1,2,3'' = [''1'', ''2'', ''3'']"
proof (intro conjI impI)
  show "scan_values [] res cur in_quote quote_char = res @ [strip cur]"
    by simp
  show "split_sql_values s \<noteq> []"
    using scan_values_length [of "[]" s "[]" False "[]"] by (auto simp: split_sql_values_def)
  show "split_sql_values [] = [[]]"
    by (simp add: tok_defs)
  show "scan_values s res cur True [q] = res @ [strip (cur @ s)]" if "q \<notin> set s"
    using that by (rule scan_values_unterminated)
  show "split_sql_values (q # s) = [strip s]" if "is_quote q \<and> q \<notin> set s"
    using that by (simp add: split_sql_values_def scan_values_unterminated)
  show "split_sql_values s = map strip (comma_fields [] s)" if "\<forall>c\<in>set s. \<not> is_quote c"
    using scan_values_unquoted [OF that, of "[]" "[]" "[]" "[]"]
    by (simp add: split_sql_values_def map_strip_fields)
  show "split_sql_values (pre @ q # s)
          = map strip (butlast (comma_fields [] pre)) @ [strip (last (comma_fields [] pre) @ s)]"
    if "is_quote q \<and> (\<forall>c\<in>set pre. \<not> is_quote c) \<and> q \<notin> set s"
  proof -
    from that have "\<forall>c\<in>set pre. \<not> is_quote c" "is_quote q" "q \<notin> set s"
      by simp_all
    then show ?thesis
      using scan_values_unquoted [of pre "q # s" "[]" "[]" "[]"]
      by (simp add: split_sql_values_def scan_values_unterminated)
  qed
  show "split_sql_values ''a,'b,c'' = [''a'', ''b,c'']"
    by (simp add: tok_defs)
  show "split_sql_values ''1,2,3'' = [''1'', ''2'', ''3'']"
    by (simp add: tok_defs)
qed

theorem tokenizer_total_witness:
  "is_quote SQ \<and> SQ \<notin> set ''ab, c '' \<and> split_sql_values (SQ # ''ab, c '') = [''ab, c'']
   \<and> scan_values ''b, c '' [''x''] ''a'' True [SQ] = [''x'', ''ab, c'']
   \<and> list_all (\<lambda>c. \<not> is_quote c) ''x ,y'' \<and> split_sql_values ''x ,y'' = [''x'', ''y'']
   \<and> split_sql_values (''x ,y'' @ SQ # ''ab, c '') = [''x'', ''yab, c'']"
proof -
  have h: "is_quote SQ" "SQ \<notin> set ''ab, c ''" "SQ \<notin> set ''b, c ''"
      "\<forall>c\<in>set ''x ,y''. \<not> is_quote c"
    by (simp_all add: is_quote_def)
  have e: "strip ''ab, c '' = ''ab, c''" "strip (''a'' @ ''b, c '') = ''ab, c''"
      "map strip (comma_fields [] ''x ,y'') = [''x'', ''y'']"
      "map strip (butlast (comma_fields [] ''x ,y'')) @ [strip (last (comma_fields [] ''x ,y'') @ ''ab, c '')]
         = [''x'', ''yab, c'']"
    by (simp_all add: strip_def strip_chars_def is_space_def)
  have l: "list_all (\<lambda>c. \<not> is_quote c) ''x ,y''"
    by (simp add: is_quote_def)
  from h e l tokenizer_total [of "[''x'']" "''a''" True "[]" "''ab, c ''" SQ "''x ,y''"]
    tokenizer_total [of "[''x'']" "''a''" True "[]" "''b, c ''" SQ "''x ,y''"]
    tokenizer_total [of "[''x'']" "''a''" True "[]" "''x ,y''" SQ "''x ,y''"]
  show ?thesis by (simp del: scan_values.simps)
qed

text \<open>
  C9. Outside quotes a quote character opens quoted mode whatever the field holds so
  far, and is not added to the field; inside quotes the active quote character, when the
  next character is not the same one, closes quoted mode and is not added either. So a
  record made of unquoted text, a quoted part and unquoted text again gives the unquoted
  fields before, then one field that joins the field in progress, the quoted part with
  its commas, and the text up to the next unquoted comma, then the remaining unquoted
  fields; the two quote characters are in no field. The record \<^verbatim>\<open>ab'c,d'e\<close> gives the
  one field \<^verbatim>\<open>abc,de\<close>, and \<^verbatim>\<open>a,b'c,d'e,f\<close> gives \<^verbatim>\<open>a\<close>, \<^verbatim>\<open>bc,de\<close> and
  \<^verbatim>\<open>f\<close>.
\<close>

theorem quote_anywhere:
  assumes "is_quote q"
  shows "scan_values (q # s) res cur False quote_char = scan_values s res cur True [q]
    \<and> (\<not> startswith s q \<longrightarrow>
          scan_values (q # s) res cur True [q] = scan_values s res cur False [])
    \<and> split_sql_values ''ab'c,d'e'' = [''abc,de'']
    \<and> ((\<forall>c\<in>set pre. \<not> is_quote c) \<and> q \<notin> set mid \<and> (\<forall>c\<in>set post. \<not> is_quote c) \<longrightarrow>
          split_sql_values (pre @ q # mid @ q # post)
            = map strip (butlast (comma_fields [] pre)
                          @ comma_fields (last (comma_fields [] pre) @ mid) post))
    \<and> split_sql_values ''a,b'c,d'e,f'' = [''a'', ''bc,de'', ''f'']"
proof (intro conjI impI)
  show "scan_values (q # s) res cur False quote_char = scan_values s res cur True [q]"
    using assms by simp
  show "scan_values (q # s) res cur True [q] = scan_values s res cur False []"
    if "\<not> startswith s q"
    using assms that by (cases s) (simp_all add: startswith_def)
  show "split_sql_values ''ab'c,d'e'' = [''abc,de'']"
    by (simp add: tok_defs)
  show "split_sql_values (pre @ q # mid @ q # post)
            = map strip (butlast (comma_fields [] pre)
                          @ comma_fields (last (comma_fields [] pre) @ mid) post)"
    if h: "(\<forall>c\<in>set pre. \<not> is_quote c) \<and> q \<notin> set mid \<and> (\<forall>c\<in>set post. \<not> is_quote c)"
  proof -
    let ?res = "map strip (butlast (comma_fields [] pre))"
    let ?cur = "last (comma_fields [] pre)"
    from h have pre: "\<forall>c\<in>set pre. \<not> is_quote c" and mid: "q \<notin> set mid"
      and post: "\<forall>c\<in>set post. \<not> is_quote c" by simp_all
    have "split_sql_values (pre @ q # mid @ q # post)
        = scan_values (q # mid @ q # post) ?res ?cur False []"
      using scan_values_unquoted [OF pre, of "q # mid @ q # post" "[]" "[]" "[]"]
      by (simp add: split_sql_values_def)
    also have "\<dots> = scan_values (mid @ q # post) ?res ?cur True [q]"
      using assms by simp
    also have "\<dots> = scan_values (q # post) ?res (?cur @ mid) True [q]"
      using mid by (rule scan_values_quoted)
    also have "\<dots> = scan_values post ?res (?cur @ mid) False []"
    proof (cases post)
      case Nil
      then show ?thesis using assms by simp
    next
      case (Cons c post')
      with post assms have "c \<noteq> q" by auto
      with Cons assms show ?thesis by simp
    qed
    also have "\<dots> = ?res @ map strip (comma_fields (?cur @ mid) post)"
      using scan_values_unquoted [OF post, of "[]" ?res "?cur @ mid" "[]"]
      by (simp add: map_strip_fields)
    finally show ?thesis by simp
  qed
  show "split_sql_values ''a,b'c,d'e,f'' = [''a'', ''bc,de'', ''f'']"
    by (simp add: tok_defs)
qed

theorem quote_anywhere_witness:
  "is_quote DQ \<and> \<not> startswith ''e'' DQ
   \<and> scan_values (DQ # ''c,d'') [] ''ab'' False [] = scan_values ''c,d'' [] ''ab'' True [DQ]
   \<and> scan_values (DQ # ''e'') [] ''abc,d'' True [DQ] = scan_values ''e'' [] ''abc,d'' False []
   \<and> list_all (\<lambda>c. \<not> is_quote c) ''x, y'' \<and> DQ \<notin> set ''a,'b''
   \<and> list_all (\<lambda>c. \<not> is_quote c) ''z ,w''
   \<and> split_sql_values (''x, y'' @ DQ # ''a,'b'' @ DQ # ''z ,w'') = [''x'', ''ya,'bz'', ''w'']"
proof -
  have h: "is_quote DQ" "\<not> startswith ''e'' DQ" "\<forall>c\<in>set ''x, y''. \<not> is_quote c"
      "DQ \<notin> set ''a,'b''" "\<forall>c\<in>set ''z ,w''. \<not> is_quote c"
    by (simp_all add: is_quote_def startswith_def)
  have l: "list_all (\<lambda>c. \<not> is_quote c) ''x, y''" "list_all (\<lambda>c. \<not> is_quote c) ''z ,w''"
    by (simp_all add: is_quote_def)
  have e: "map strip (butlast (comma_fields [] ''x, y'')
                          @ comma_fields (last (comma_fields [] ''x, y'') @ ''a,'b'') ''z ,w'')
      = [''x'', ''ya,'bz'', ''w'']"
    by (simp add: strip_def strip_chars_def is_space_def)
  from h l e quote_anywhere [of DQ "''c,d''" "[]" "''ab''" "[]" "''x, y''" "''a,'b''" "''z ,w''"]
    quote_anywhere [of DQ "''e''" "[]" "''abc,d''" "[]" "''x, y''" "''a,'b''" "''z ,w''"]
  show ?thesis by (simp del: scan_values.simps)
qed

section \<open>Properties of the record assembler\<close>

lemma strip_chars_decomp:
  "\<exists>pre post. s = pre @ strip_chars P s @ post \<and> (\<forall>c\<in>set pre. P c) \<and> (\<forall>c\<in>set post. P c)"
proof -
  let ?t = "dropWhile P s"
  have "?t = rev (dropWhile P (rev ?t)) @ rev (takeWhile P (rev ?t))"
    by (metis rev_append rev_rev_ident takeWhile_dropWhile_id)
  then have "s = takeWhile P s @ strip_chars P s @ rev (takeWhile P (rev ?t))"
    by (simp add: strip_chars_def)
  moreover have "\<forall>c\<in>set (takeWhile P s). P c"
    by (auto dest: set_takeWhileD)
  moreover have "\<forall>c\<in>set (rev (takeWhile P (rev ?t))). P c"
    by (auto dest: set_takeWhileD)
  ultimately show ?thesis by blast
qed

lemma strip_chars_ends:
  assumes "P c"
  shows "\<not> startswith (strip_chars P s) c \<and> \<not> endswith (strip_chars P s) c"
proof
  let ?t = "dropWhile P s"
  let ?u = "dropWhile P (rev ?t)"
  show "\<not> endswith (strip_chars P s) c"
  proof
    assume "endswith (strip_chars P s) c"
    then obtain xs where u: "?u = c # xs"
      by (auto simp: endswith_def strip_chars_def split: list.splits)
    with hd_dropWhile [of P "rev ?t"] assms show False
      by (metis list.sel(1) list.distinct(1))
  qed
  show "\<not> startswith (strip_chars P s) c"
  proof
    assume "startswith (strip_chars P s) c"
    then obtain xs where r: "rev ?u = c # xs"
      by (auto simp: startswith_def strip_chars_def split: list.splits)
    then have ne: "?u \<noteq> []" and l: "last ?u = c"
      by (metis Nil_is_rev_conv list.distinct(1), metis hd_rev list.sel(1))
    have "rev ?t = takeWhile P (rev ?t) @ ?u"
      by simp
    then have "last (rev ?t) = last ?u"
      using ne by (metis last_appendR)
    moreover have t: "?t \<noteq> []"
      using ne by (metis dropWhile.simps(1) rev.simps(1))
    ultimately have "hd ?t = c"
      using l by (simp add: last_rev)
    with hd_dropWhile [of P s] t assms show False
      by blast
  qed
qed

text \<open>
  C3, as the code has it. Each token of the tokenizer is trimmed of whitespace and then
  of every leading and every trailing quote character, however many there are: the
  field of the assembled record is the trimmed token without a run of quote characters
  at its start and one at its end, and it neither starts nor ends with a quote
  character.
\<close>

theorem clean_removes_every_quote:
  "length (clean_record rec) = length (split_sql_values rec)
   \<and> (\<forall>i<length (split_sql_values rec).
        (\<exists>pre post. strip (split_sql_values rec ! i) = pre @ clean_record rec ! i @ post
            \<and> (\<forall>c\<in>set pre. is_quote c) \<and> (\<forall>c\<in>set post. is_quote c))
        \<and> (\<forall>c. is_quote c \<longrightarrow>
              \<not> startswith (clean_record rec ! i) c \<and> \<not> endswith (clean_record rec ! i) c))"
  using strip_chars_decomp [of _ is_quote] strip_chars_ends [of is_quote]
  by (simp add: clean_record_def clean_token_def)

text \<open>
  C3 as stated fails: for the record \<^verbatim>\<open>'""x""'\<close> the tokenizer gives the token
  \<^verbatim>\<open>""x""\<close>, and the assembled field is \<^verbatim>\<open>x\<close>, two quote characters shorter at each
  end, not \<^verbatim>\<open>"x"\<close>.
\<close>

theorem one_layer_counterexample:
  "split_sql_values ([SQ, DQ, DQ] @ ''x'' @ [DQ, DQ, SQ]) = [[DQ, DQ] @ ''x'' @ [DQ, DQ]]
   \<and> clean_record ([SQ, DQ, DQ] @ ''x'' @ [DQ, DQ, SQ]) = [''x'']
   \<and> clean_record ([SQ, DQ, DQ] @ ''x'' @ [DQ, DQ, SQ]) \<noteq> [[DQ] @ ''x'' @ [DQ]]"
  by (simp add: tok_defs)

theorem clean_removes_every_quote_witness:
  "0 < length (split_sql_values ([SQ, DQ, DQ] @ ''x'' @ [DQ, DQ, SQ]))
   \<and> is_quote DQ
   \<and> (\<exists>pre post. strip (split_sql_values ([SQ, DQ, DQ] @ ''x'' @ [DQ, DQ, SQ]) ! 0)
          = pre @ clean_record ([SQ, DQ, DQ] @ ''x'' @ [DQ, DQ, SQ]) ! 0 @ post
        \<and> (\<forall>c\<in>set pre. is_quote c) \<and> (\<forall>c\<in>set post. is_quote c))
   \<and> \<not> startswith (clean_record ([SQ, DQ, DQ] @ ''x'' @ [DQ, DQ, SQ]) ! 0) DQ"
proof -
  have "0 < length (split_sql_values ([SQ, DQ, DQ] @ ''x'' @ [DQ, DQ, SQ]))" "is_quote DQ"
    by (simp_all add: tok_defs)
  with clean_removes_every_quote [of "[SQ, DQ, DQ] @ ''x'' @ [DQ, DQ, SQ]"] show ?thesis
    by blast
qed

lemma first_some_append:
  "first_some f (xs @ ys) = (case first_some f xs of Some y \<Rightarrow> Some y | None \<Rightarrow> first_some f ys)"
  by (induction xs) (auto split: option.splits)

lemma first_some_map: "first_some f (map h xs) = first_some (\<lambda>x. f (h x)) xs"
  by (induction xs) (auto split: option.splits)

lemma splits_first_some:
  assumes "\<And>p r. f (p, r) \<noteq> None \<Longrightarrow> \<exists>c r'. r = c # r' \<and> \<not> P c"
  shows "first_some f (splits P s) = f (takeWhile P s, dropWhile P s)"
  using assms
proof (induction s arbitrary: f)
  case Nil
  then show ?case by (simp split: option.splits)
next
  case (Cons x xs)
  show ?case
  proof (cases "P x")
    case False
    then show ?thesis by (simp split: option.splits)
  next
    case True
    let ?f = "\<lambda>y. f (case y of (p, r) \<Rightarrow> (x # p, r))"
    have "first_some ?f (splits P xs) = ?f (takeWhile P xs, dropWhile P xs)"
      by (rule Cons.IH) (use Cons.prems in auto)
    moreover have "f ([], x # xs) = None"
    proof (rule ccontr)
      assume "f ([], x # xs) \<noteq> None"
      from Cons.prems [OF this] True show False by auto
    qed
    ultimately show ?thesis
      using True by (simp add: first_some_append first_some_map split: option.splits)
  qed
qed

lemma in_cls_Space: "in_cls Space = is_space"
  by (rule ext) simp

lemma in_cls_AnyChar: "in_cls AnyChar = (\<lambda>c. True)"
  by (rule ext) simp

lemma filter_min0: "filter (\<lambda>(p, r). (0::nat) \<le> length p) xs = xs"
  by (induction xs) auto

lemma lit_prefix_Cons:
  "lit_prefix eq (p # ps) s =
     (case s of [] \<Rightarrow> None | c # s' \<Rightarrow> if eq p c then lit_prefix eq ps s' else None)"
  by (cases s) auto

lemma match_spaces_paren:
  "match_atoms [Many Space 0, Lit ''(''] t g =
     (case lit_prefix (=) ''('' (dropWhile is_space t) of
        None \<Rightarrow> None | Some r \<Rightarrow> Some (g, r))"
proof -
  let ?f = "\<lambda>(p, r). match_atoms [Lit ''(''] r g"
  have f: "\<And>p r. ?f (p, r) \<noteq> None \<Longrightarrow> \<exists>c r'. r = c # r' \<and> \<not> is_space c"
    by (auto simp: is_space_def split: option.splits list.splits if_splits elim!: lit_prefix.elims)
  show ?thesis
    using splits_first_some [of ?f is_space, OF f]
    by (simp add: filter_min0 in_cls_Space cong: option.case_cong)
qed

lemma record_sep_match:
  "match_atoms record_sep s g =
     (case lit_prefix (=) ''),'' s of
        None \<Rightarrow> None
      | Some t \<Rightarrow> (case lit_prefix (=) ''('' (dropWhile is_space t) of
                    None \<Rightarrow> None | Some r \<Rightarrow> Some (g, r)))"
proof (cases s)
  case Nil
  then show ?thesis by (simp add: record_sep_def)
next
  case s: (Cons c s1)
  show ?thesis
  proof (cases s1)
    case Nil
    with s show ?thesis by (simp add: record_sep_def)
  next
    case (Cons c2 t)
    with s show ?thesis
      by (simp add: record_sep_def match_spaces_paren del: match_atoms.simps(5))
  qed
qed

lemma record_sep_iff:
  "match_atoms record_sep s g = Some (g', r) \<longleftrightarrow>
     g' = g \<and> (\<exists>ws. s = ''),'' @ ws @ ''('' @ r \<and> (\<forall>c\<in>set ws. is_space c))"
proof
  assume "match_atoms record_sep s g = Some (g', r)"
  then obtain t where "s = ''),'' @ t" "dropWhile is_space t = ''('' @ r" "g' = g"
    by (auto simp: record_sep_match lit_prefix_Cons
          split: option.splits list.splits if_splits)
  moreover have "t = takeWhile is_space t @ dropWhile is_space t"
    by simp
  moreover have "\<forall>c\<in>set (takeWhile is_space t). is_space c"
    by (auto dest: set_takeWhileD)
  ultimately show "g' = g \<and> (\<exists>ws. s = ''),'' @ ws @ ''('' @ r \<and> (\<forall>c\<in>set ws. is_space c))"
    by metis
next
  assume "g' = g \<and> (\<exists>ws. s = ''),'' @ ws @ ''('' @ r \<and> (\<forall>c\<in>set ws. is_space c))"
  then obtain ws where "g' = g" "s = ''),'' @ ws @ ''('' @ r" "\<forall>c\<in>set ws. is_space c"
    by blast
  moreover have "\<not> is_space (CHR ''('')"
    by (simp add: is_space_def)
  ultimately show "match_atoms record_sep s g = Some (g', r)"
    by (simp add: record_sep_match dropWhile_append2)
qed


lemma split_pieces_sep:
  assumes "\<forall>c\<in>set ws. is_space c"
  shows "split_pieces cur (''),'' @ ws @ ''('' @ b) = cur # split_pieces [] b"
proof -
  have "match_atoms record_sep (''),'' @ ws @ ''('' @ b) [] = Some ([], b)"
    using assms by (subst record_sep_iff) blast
  then show ?thesis
    by (subst split_pieces.simps) simp
qed

lemma split_pieces_none:
  "(\<forall>k\<le>length s. match_atoms record_sep (drop k s) [] = None) \<Longrightarrow> split_pieces cur s = [cur @ s]"
proof (induction s arbitrary: cur)
  case Nil
  then show ?case by (subst split_pieces.simps) simp
next
  case (Cons x s)
  from Cons.prems have "match_atoms record_sep (x # s) [] = None"
    by (metis drop0 le0)
  then have "split_pieces cur (x # s) = split_pieces (cur @ [x]) s"
    by (subst split_pieces.simps) simp
  moreover have "\<forall>k\<le>length s. match_atoms record_sep (drop k s) [] = None"
    using Cons.prems by (metis Suc_le_mono drop_Suc_Cons length_Cons)
  ultimately show ?case
    using Cons.IH by simp
qed

lemma strip_parens: "strip (''('' @ body @ '')'') = ''('' @ body @ '')''"
  by (simp add: strip_def strip_chars_def is_space_def)

lemma sep_inside_prefix:
  assumes m: "match_atoms record_sep (u @ CHR '')'' # t) [] = Some (g, r)" and u: "u \<noteq> []"
  shows "\<exists>ws y. u = ''),'' @ ws @ ''('' @ y \<and> (\<forall>c\<in>set ws. is_space c)"
proof -
  from m obtain ws where w: "u @ CHR '')'' # t = ''),'' @ ws @ ''('' @ r" "\<forall>c\<in>set ws. is_space c"
    by (auto simp: record_sep_iff)
  from u obtain c1 u1 where u1: "u = c1 # u1" by (cases u) auto
  with w have c1: "c1 = CHR '')''"
    by simp
  have "u1 \<noteq> []"
  proof
    assume "u1 = []"
    with w u1 show False by simp
  qed
  then obtain c2 u2 where u2: "u1 = c2 # u2" by (cases u1) auto
  with w u1 have c2: "c2 = CHR '',''" and e: "u2 @ CHR '')'' # t = ws @ CHR ''('' # r"
    by simp_all
  have "\<not> is_space (CHR ''('')"
    by (simp add: is_space_def)
  with w(2) have "dropWhile is_space (ws @ CHR ''('' # r) = CHR ''('' # r"
    by (simp add: dropWhile_append2)
  with e have d: "dropWhile is_space (u2 @ CHR '')'' # t) = CHR ''('' # r"
    by simp
  have ns: "\<not> is_space (CHR '')'')"
    by (simp add: is_space_def)
  have "\<exists>x\<in>set u2. \<not> is_space x"
  proof (rule ccontr)
    assume "\<not> (\<exists>x\<in>set u2. \<not> is_space x)"
    then have "dropWhile is_space (u2 @ CHR '')'' # t) = CHR '')'' # t"
      using ns by (simp add: dropWhile_append2)
    with d show False by simp
  qed
  then obtain x where x: "x \<in> set u2" "\<not> is_space x" by blast
  then have "dropWhile is_space (u2 @ CHR '')'' # t) = dropWhile is_space u2 @ CHR '')'' # t"
    by (simp add: dropWhile_append1)
  moreover from x have "dropWhile is_space u2 \<noteq> []"
    by auto
  ultimately obtain y where y: "dropWhile is_space u2 = CHR ''('' # y"
    using d by (cases "dropWhile is_space u2") auto
  have "u2 = takeWhile is_space u2 @ dropWhile is_space u2"
    by simp
  with y have "u2 = takeWhile is_space u2 @ ''('' @ y"
    by simp
  with u1 u2 c1 c2 have "u = ''),'' @ takeWhile is_space u2 @ ''('' @ y"
    by simp
  moreover have "\<forall>c\<in>set (takeWhile is_space u2). is_space c"
    by (auto dest: set_takeWhileD)
  ultimately show ?thesis by blast
qed

lemma split_pieces_leftmost:
  "(\<forall>k<length a. match_atoms record_sep (drop k a @ t) [] = None)
   \<Longrightarrow> split_pieces cur (a @ t) = split_pieces (cur @ a) t"
proof (induction a arbitrary: cur)
  case Nil
  then show ?case by simp
next
  case (Cons x a)
  from Cons.prems have "match_atoms record_sep ((x # a) @ t) [] = None"
    by (metis drop0 length_greater_0_conv list.distinct(1))
  then have "split_pieces cur ((x # a) @ t) = split_pieces (cur @ [x]) (a @ t)"
    by (subst split_pieces.simps) simp
  moreover have "\<forall>k<length a. match_atoms record_sep (drop k a @ t) [] = None"
  proof (intro allI impI)
    fix k assume "k < length a"
    then have "Suc k < length (x # a)" by simp
    with Cons.prems have "match_atoms record_sep (drop (Suc k) (x # a) @ t) [] = None" by blast
    then show "match_atoms record_sep (drop k a @ t) [] = None" by simp
  qed
  ultimately show ?case
    using Cons.IH [of "cur @ [x]"] by simp
qed

lemma no_sep_leftmost:
  assumes "\<not> (\<exists>x ws y. a = x @ ''),'' @ ws @ ''('' @ y \<and> (\<forall>c\<in>set ws. is_space c))"
  shows "\<forall>k<length a. match_atoms record_sep (drop k a @ CHR '')'' # t) [] = None"
proof (intro allI impI)
  fix k assume k: "k < length a"
  show "match_atoms record_sep (drop k a @ CHR '')'' # t) [] = None"
  proof (cases "match_atoms record_sep (drop k a @ CHR '')'' # t) []")
    case (Some m)
    obtain g r where "m = (g, r)" by (cases m)
    with Some k sep_inside_prefix [of "drop k a" t g r]
    obtain ws y where "drop k a = ''),'' @ ws @ ''('' @ y" "\<forall>c\<in>set ws. is_space c"
      by auto
    then have "a = take k a @ ''),'' @ ws @ ''('' @ y \<and> (\<forall>c\<in>set ws. is_space c)"
      by (metis append_take_drop_id)
    with assms show ?thesis by blast
  qed simp
qed

lemma no_sep_anywhere:
  assumes "\<not> (\<exists>x ws y. s = x @ ''),'' @ ws @ ''('' @ y \<and> (\<forall>c\<in>set ws. is_space c))"
  shows "\<forall>k\<le>length s. match_atoms record_sep (drop k s) [] = None"
proof (intro allI impI)
  fix k
  show "match_atoms record_sep (drop k s) [] = None"
  proof (cases "match_atoms record_sep (drop k s) []")
    case (Some m)
    obtain g r where "m = (g, r)" by (cases m)
    with Some obtain ws where "drop k s = ''),'' @ ws @ ''('' @ r" "\<forall>c\<in>set ws. is_space c"
      by (auto simp: record_sep_iff)
    then have "s = take k s @ ''),'' @ ws @ ''('' @ r \<and> (\<forall>c\<in>set ws. is_space c)"
      by (metis append_take_drop_id)
    with assms show ?thesis by blast
  qed simp
qed

lemma re_split_first:
  assumes "\<not> (\<exists>x ws' y. a = x @ ''),'' @ ws' @ ''('' @ y \<and> (\<forall>c\<in>set ws'. is_space c))"
    and "\<forall>c\<in>set ws. is_space c"
  shows "re_split (a @ ''),'' @ ws @ ''('' @ b) = a # re_split b"
proof -
  have "split_pieces [] (a @ CHR '')'' # (CHR '','' # ws @ ''('' @ b))
      = split_pieces ([] @ a) (CHR '')'' # (CHR '','' # ws @ ''('' @ b))"
    by (rule split_pieces_leftmost) (rule no_sep_leftmost [OF assms(1)])
  also have "\<dots> = a # split_pieces [] b"
    using split_pieces_sep [OF assms(2), of a b] by simp
  finally show ?thesis by (simp add: re_split_def)
qed

lemma re_split_none:
  assumes "\<not> (\<exists>x ws y. s = x @ ''),'' @ ws @ ''('' @ y \<and> (\<forall>c\<in>set ws. is_space c))"
  shows "re_split s = [s]"
  using split_pieces_none [OF no_sep_anywhere [OF assms], of "[]"] by (simp add: re_split_def)

text \<open>
  C10. The separator of \<^verbatim>\<open>re.split\<close> matches exactly a close-paren, a comma right
  after it, any whitespace, and an open-paren. A value-list in one pair of parentheses
  is split at the separators of its inside, and nowhere else: a text that holds no
  separator is one piece, and a text whose beginning holds no separator and is followed
  by a separator gives that beginning as its first piece and then the pieces of what
  follows the separator. A close-paren alone cuts nothing: \<^verbatim>\<open>a)b),(c\<close> gives
  \<^verbatim>\<open>a)b\<close> and \<^verbatim>\<open>c\<close>. Whitespace between the close-paren and the comma is no
  separator, so \<^verbatim>\<open>(1,'A') ,(2,'B')\<close> is one record, while \<^verbatim>\<open>(1,'A'),  (2,'B')\<close> is
  two.
\<close>

theorem record_boundary:
  "(match_atoms record_sep s [] = Some ([], r) \<longleftrightarrow>
      (\<exists>ws. s = ''),'' @ ws @ ''('' @ r \<and> (\<forall>c\<in>set ws. is_space c)))
   \<and> (\<not> (\<exists>x ws' y. a = x @ ''),'' @ ws' @ ''('' @ y \<and> (\<forall>c\<in>set ws'. is_space c))
        \<and> (\<forall>c\<in>set ws. is_space c) \<longrightarrow>
        re_split (a @ ''),'' @ ws @ ''('' @ b) = a # re_split b)
   \<and> (\<not> (\<exists>x ws' y. s = x @ ''),'' @ ws' @ ''('' @ y \<and> (\<forall>c\<in>set ws'. is_space c)) \<longrightarrow>
        re_split s = [s])
   \<and> split_records (''('' @ body @ '')'') = re_split body
   \<and> split_records ''(1,'A') ,(2,'B')'' = [''1,'A') ,(2,'B'' @ [SQ]]
   \<and> split_records ''(1,'A'),  (2,'B')'' = [''1,'A'' @ [SQ], ''2,'B'' @ [SQ]]
   \<and> re_split ''a)b),(c'' = [''a)b'', ''c'']"
proof (intro conjI impI)
  show "match_atoms record_sep s [] = Some ([], r) \<longleftrightarrow>
      (\<exists>ws. s = ''),'' @ ws @ ''('' @ r \<and> (\<forall>c\<in>set ws. is_space c))"
    by (simp add: record_sep_iff)
  show "re_split (a @ ''),'' @ ws @ ''('' @ b) = a # re_split b"
    if "\<not> (\<exists>x ws' y. a = x @ ''),'' @ ws' @ ''('' @ y \<and> (\<forall>c\<in>set ws'. is_space c))
        \<and> (\<forall>c\<in>set ws. is_space c)"
    using that re_split_first [of a ws b] by blast
  show "re_split s = [s]"
    if "\<not> (\<exists>x ws' y. s = x @ ''),'' @ ws' @ ''('' @ y \<and> (\<forall>c\<in>set ws'. is_space c))"
    using that by (rule re_split_none)
  show "split_records (''('' @ body @ '')'') = re_split body"
    unfolding split_records_def strip_parens by (simp add: startswith_def endswith_def)
  show "split_records ''(1,'A') ,(2,'B')'' = [''1,'A') ,(2,'B'' @ [SQ]]"
    by (simp add: split_records_def re_split_def split_pieces.simps record_sep_def strip_def
          strip_chars_def is_space_def startswith_def endswith_def)
  show "split_records ''(1,'A'),  (2,'B')'' = [''1,'A'' @ [SQ], ''2,'B'' @ [SQ]]"
    by (simp add: split_records_def re_split_def split_pieces.simps record_sep_def strip_def
          strip_chars_def is_space_def startswith_def endswith_def)
  show "re_split ''a)b),(c'' = [''a)b'', ''c'']"
    by (simp add: re_split_def split_pieces.simps record_sep_def is_space_def)
qed

theorem record_boundary_witness:
  "\<not> (\<exists>x ws y. ''a)b'' = x @ ''),'' @ ws @ ''('' @ y \<and> (\<forall>c\<in>set ws. is_space c))
   \<and> is_space (CHR '' '')
   \<and> re_split (''a)b'' @ ''),'' @ ''  '' @ ''('' @ ''c,d'') = [''a)b'', ''c,d'']
   \<and> re_split ''a)b'' = [''a)b'']"
proof -
  have n: "\<not> (\<exists>x ws y. ''a)b'' = x @ ''),'' @ ws @ ''('' @ y \<and> (\<forall>c\<in>set ws. is_space c))"
  proof
    assume "\<exists>x ws y. ''a)b'' = x @ ''),'' @ ws @ ''('' @ y \<and> (\<forall>c\<in>set ws. is_space c)"
    then obtain x ws y where "''a)b'' = x @ ''),'' @ ws @ ''('' @ y" by blast
    then have "set ''a)b'' = set (x @ ''),'' @ ws @ ''('' @ y)" by (rule arg_cong)
    then have "CHR '','' \<in> set ''a)b''" by simp
    then show False by simp
  qed
  have sp: "is_space (CHR '' '')" "\<forall>c\<in>set ''  ''. is_space c"
    by (simp_all add: is_space_def)
  have m: "\<not> (\<exists>x ws y. ''c,d'' = x @ ''),'' @ ws @ ''('' @ y \<and> (\<forall>c\<in>set ws. is_space c))"
  proof
    assume "\<exists>x ws y. ''c,d'' = x @ ''),'' @ ws @ ''('' @ y \<and> (\<forall>c\<in>set ws. is_space c)"
    then obtain x ws y where "''c,d'' = x @ ''),'' @ ws @ ''('' @ y" by blast
    then have "set ''c,d'' = set (x @ ''),'' @ ws @ ''('' @ y)" by (rule arg_cong)
    then have "CHR '')'' \<in> set ''c,d''" by simp
    then show False by simp
  qed
  from record_boundary [of "''c,d''" _ "''a)b''" "''  ''" "''c,d''"] m
  have c: "re_split ''c,d'' = [''c,d'']" by blast
  from record_boundary [of "''a)b''" _ "''a)b''" "''  ''" "''c,d''"] n sp
  have "re_split (''a)b'' @ ''),'' @ ''  '' @ ''('' @ ''c,d'') = ''a)b'' # re_split ''c,d''"
    and "re_split ''a)b'' = [''a)b'']"
    by blast+
  with n sp c show ?thesis by simp
qed

section \<open>Properties of the table materializer\<close>

lemma fold_max_0: "xs \<noteq> [] \<Longrightarrow> fold max xs (0::nat) = Max (set xs)"
proof -
  assume "xs \<noteq> []"
  have "fold max xs (0::nat) = Max (set (0 # xs))"
    by (simp only: Max.set_eq_fold)
  also have "\<dots> = Max (set xs)"
    using \<open>xs \<noteq> []\<close> by simp
  finally show ?thesis .
qed

lemma py_max_Max: "xs \<noteq> [] \<Longrightarrow> py_max xs = Inr (Max (set xs))"
  by (cases xs) (simp_all add: Max.set_eq_fold del: set_simps)

lemma materialize_Inr:
  assumes "items \<noteq> []"
  shows "materialize items =
    Inr \<lparr>columns = map (\<lambda>i. ''col_'' @ str_nat (i + 1)) [0..<Max (length ` set items)],
         rows = map (\<lambda>r. map Some r @ replicate (Max (length ` set items) - length r) None) items\<rparr>"
proof -
  let ?w = "Max (length ` set items)"
  have "py_max (map length items) = Inr ?w" "fold max (map length items) 0 = ?w"
    using assms py_max_Max [of "map length items"] fold_max_0 [of "map length items"] by simp_all
  then show ?thesis
    using assms by (simp add: materialize_def DataFrame_def)
qed

lemma materialize_not_empty:
  assumes "items \<noteq> []" "\<forall>r\<in>set items. r \<noteq> []"
  shows "\<exists>df. materialize items = Inr df \<and> \<not> df_empty df"
proof -
  from assms obtain r where r: "r \<in> set items" "r \<noteq> []"
    by (cases items) auto
  then have "length r \<le> Max (length ` set items)"
    by simp
  with r have "0 < Max (length ` set items)"
    by (metis length_greater_0_conv less_le_trans)
  with assms(1) show ?thesis
    by (simp add: materialize_Inr df_empty_def)
qed

text \<open>
  C6. For a non-empty sequence of records the table is built without an error, it has
  as many columns as the longest record has fields and one row for each record, in
  order; the row of a record is the record's fields followed by missing values up to
  that width, so no field and no record is lost. Records of lengths 3, 4 and 4 give 4
  columns and 3 rows.
\<close>

theorem materialize_widens:
  assumes "items \<noteq> []"
  shows "\<exists>df. materialize items = Inr df
     \<and> length (columns df) = Max (length ` set items)
     \<and> length (rows df) = length items
     \<and> (\<forall>i<length items.
          rows df ! i = map Some (items ! i)
                          @ replicate (Max (length ` set items) - length (items ! i)) None
          \<and> length (rows df ! i) = Max (length ` set items))"
proof -
  have "\<And>i. i < length items \<Longrightarrow> length (items ! i) \<le> Max (length ` set items)"
    by simp
  then show ?thesis
    using assms by (simp add: materialize_Inr)
qed

theorem materialize_widens_witness:
  "[[''1'', ''A'', ''Cafe''], [''2'', ''B'', ''Thai'', ''4.2''], [''3'', ''C'', ''Deli'', ''3.0'']] \<noteq> []
   \<and> (\<exists>df. materialize [[''1'', ''A'', ''Cafe''], [''2'', ''B'', ''Thai'', ''4.2''],
                          [''3'', ''C'', ''Deli'', ''3.0'']] = Inr df
        \<and> length (columns df) = 4 \<and> length (rows df) = 3
        \<and> rows df ! 0 = [Some ''1'', Some ''A'', Some ''Cafe'', None])"
  using materialize_widens
    [of "[[''1'', ''A'', ''Cafe''], [''2'', ''B'', ''Thai'', ''4.2''], [''3'', ''C'', ''Deli'', ''3.0'']]"]
  by (auto simp: numeral_eq_Suc)

section \<open>Properties of the statement extractor\<close>

lemma to_lower_semicolon: "to_lower c = CHR '';'' \<longleftrightarrow> c = CHR '';''"
proof
  define n where "n = (of_char c :: nat)"
  let ?up = "(65 \<le> n \<and> n \<le> 90) \<or> (192 \<le> n \<and> n \<le> 222 \<and> n \<noteq> 215)"
  have tl: "to_lower c = (if ?up then char_of (n + 32) else c)"
    unfolding to_lower_def n_def Let_def ..
  assume a: "to_lower c = CHR '';''"
  show "c = CHR '';''"
  proof (cases ?up)
    case True
    with a tl have "char_of (n + 32) = CHR '';''"
      by (simp only: if_True)
    then have "take_bit 8 (n + 32) = (59::nat)"
      by (simp add: char_of_eq_iff)
    then have "(n + 32) mod 256 = 59"
      by (simp add: take_bit_eq_mod)
    moreover from True have "n + 32 < 256" "65 \<le> n"
      by linarith+
    ultimately have False
      by simp
    then show ?thesis ..
  next
    case False
    with a tl show ?thesis by (simp only: if_False)
  qed
next
  assume "c = CHR '';''"
  then show "to_lower c = CHR '';''" by (simp add: to_lower_def)
qed

lemma ci_eq_semicolon: "ci_eq (CHR '';'') c \<longleftrightarrow> c = CHR '';''"
  using to_lower_semicolon [of c] to_lower_semicolon [of "CHR '';''"] by (simp add: ci_eq_def)

lemma first_some_None: "first_some f xs = None \<longleftrightarrow> (\<forall>x\<in>set xs. f x = None)"
  by (induction xs) (auto split: option.splits)

lemma splits_all: "(take k s, drop k s) \<in> set (splits (\<lambda>c. True) s)"
proof (induction s arbitrary: k)
  case Nil
  then show ?case by simp
next
  case (Cons x xs)
  show ?case
  proof (cases k)
    case 0
    then show ?thesis by simp
  next
    case (Suc j)
    with Cons [of j] show ?thesis by force
  qed
qed

lemma match_semicolon:
  "match_atoms [LitI '';''] r g =
     (case r of [] \<Rightarrow> None | c # r' \<Rightarrow> if c = CHR '';'' then Some (g, r') else None)"
  by (cases r) (simp_all add: ci_eq_semicolon)

lemma filter_map_cons:
  "filter (\<lambda>(p, r). n \<le> length p) (map (\<lambda>(p, r). (x # p, r)) S)
     = map (\<lambda>(p, r). (x # p, r)) (filter (\<lambda>(p, r). n - 1 \<le> length p) S)"
  by (induction S) auto

text \<open>The tail \<^verbatim>\<open>(.+);\<close> takes everything up to the last semicolon.\<close>

lemma greedy_tail_rest:
  "first_some (\<lambda>(p, r). match_atoms [LitI '';''] r (h p))
      (filter (\<lambda>(p, r). n \<le> length p) (splits (\<lambda>c. True) t)) = Some (g', r)
   \<Longrightarrow> CHR '';'' \<notin> set r \<and> CHR '';'' \<in> set t"
proof (induction t arbitrary: n h)
  case Nil
  then show ?case by (simp add: match_semicolon del: match_atoms.simps split: if_splits)
next
  case (Cons x xs)
  let ?f = "\<lambda>(p, r). match_atoms [LitI '';''] r (h p)"
  let ?f' = "\<lambda>(p, r). match_atoms [LitI '';''] r ((h \<circ> (#) x) p)"
  let ?S = "filter (\<lambda>(p, r). n - 1 \<le> length p) (splits (\<lambda>c. True) xs)"
  have fl: "filter (\<lambda>(p, r). n \<le> length p) (map (\<lambda>(p, r). (x # p, r)) (splits (\<lambda>c. True) xs))
      = map (\<lambda>(p, r). (x # p, r)) ?S"
    by (rule filter_map_cons)
  have fm: "first_some ?f (map (\<lambda>(p, r). (x # p, r)) ?S) = first_some ?f' ?S"
    by (simp add: first_some_map case_prod_unfold del: match_atoms.simps)
  show ?case
  proof (cases "first_some ?f' ?S")
    case (Some y)
    with Cons.prems fl fm have "first_some ?f' ?S = Some (g', r)"
      by (simp add: first_some_append del: match_atoms.simps)
    from Cons.IH [OF this] show ?thesis by simp
  next
    case None
    with Cons.prems fl fm have e: "n = 0" "x = CHR '';''" "r = xs"
      by (auto simp: first_some_append match_semicolon simp del: match_atoms.simps
            split: if_splits)
    have "CHR '';'' \<notin> set xs"
    proof
      assume "CHR '';'' \<in> set xs"
      then obtain k where k: "k < length xs" "xs ! k = CHR '';''"
        by (auto simp: in_set_conv_nth)
      then have "drop k xs = CHR '';'' # drop (Suc k) xs"
        by (metis Cons_nth_drop_Suc)
      then have val: "?f' (take k xs, drop k xs) = Some (h (x # take k xs), drop (Suc k) xs)"
        by (simp add: match_semicolon del: match_atoms.simps)
      have mem: "(take k xs, drop k xs) \<in> set ?S"
        using e splits_all [of k xs] by simp
      from None have "\<forall>z\<in>set ?S. ?f' z = None"
        by (simp only: first_some_None)
      from bspec [OF this mem] val show False
        by simp
    qed
    with e show ?thesis by simp
  qed
qed

lemma lit_prefix_drop: "lit_prefix eq l s = Some r \<Longrightarrow> r = drop (length l) s"
  by (induction eq l s rule: lit_prefix.induct) (simp_all split: if_splits)

lemma splits_drop: "(p, r) \<in> set (splits P s) \<Longrightarrow> r = drop (length p) s"
  by (drule splits_append) simp

lemma match_atoms_append:
  "match_atoms (as @ bs) s g = Some (g', r)
   \<Longrightarrow> \<exists>k g''. match_atoms bs (drop k s) g'' = Some (g', r)"
proof (induction as arbitrary: s g)
  case Nil
  then have "match_atoms bs (drop 0 s) g = Some (g', r)" by simp
  then show ?case by blast
next
  case (Cons a as)
  have step: "\<exists>k g''. match_atoms bs (drop k s) g'' = Some (g', r)"
    if "match_atoms (as @ bs) (drop j s) g0 = Some (g', r)" for j g0
  proof -
    from Cons.IH [OF that] obtain k g'' where
      "match_atoms bs (drop k (drop j s)) g'' = Some (g', r)" by blast
    then have "match_atoms bs (drop (k + j) s) g'' = Some (g', r)" by simp
    then show ?thesis by blast
  qed
  show ?case
  proof (cases a)
    case (Lit l)
    with Cons.prems obtain r0 where
      "lit_prefix (=) l s = Some r0" "match_atoms (as @ bs) r0 g = Some (g', r)"
      by (auto split: option.splits)
    then have "match_atoms (as @ bs) (drop (length l) s) g = Some (g', r)"
      by (auto dest: lit_prefix_drop)
    then show ?thesis by (rule step)
  next
    case (LitI l)
    with Cons.prems obtain r0 where
      "lit_prefix ci_eq l s = Some r0" "match_atoms (as @ bs) r0 g = Some (g', r)"
      by (auto split: option.splits)
    then have "match_atoms (as @ bs) (drop (length l) s) g = Some (g', r)"
      by (auto dest: lit_prefix_drop)
    then show ?thesis by (rule step)
  next
    case (Opt c)
    with Cons.prems consider "match_atoms (as @ bs) s g = Some (g', r)"
      | r0 where "lit_prefix ci_eq [c] s = Some r0" "match_atoms (as @ bs) r0 g = Some (g', r)"
      by (auto split: option.splits)
    then show ?thesis
    proof cases
      case 1
      then have "match_atoms (as @ bs) (drop 0 s) g = Some (g', r)" by simp
      then show ?thesis by (rule step)
    next
      case 2
      then have "match_atoms (as @ bs) (drop (length [c]) s) g = Some (g', r)"
        by (auto dest: lit_prefix_drop)
      then show ?thesis by (rule step)
    qed
  next
    case (Many k n)
    with Cons.prems obtain p r0 where
      "(p, r0) \<in> set (splits (in_cls k) s)" "match_atoms (as @ bs) r0 g = Some (g', r)"
      by (auto dest!: first_some_SomeD)
    then have "match_atoms (as @ bs) (drop (length p) s) g = Some (g', r)"
      by (auto dest: splits_drop)
    then show ?thesis by (rule step)
  next
    case (Capture k n)
    with Cons.prems obtain p r0 where
      "(p, r0) \<in> set (splits (in_cls k) s)" "match_atoms (as @ bs) r0 p = Some (g', r)"
      by (auto dest!: first_some_SomeD)
    then have "match_atoms (as @ bs) (drop (length p) s) p = Some (g', r)"
      by (auto dest: splits_drop)
    then show ?thesis by (rule step)
  qed
qed

lemma insert_pattern_semicolons:
  assumes "match_atoms (insert_pattern tn) s g = Some (g', r)"
  shows "CHR '';'' \<notin> set r \<and> CHR '';'' \<in> set s"
proof -
  let ?as = "[LitI ''INSERT'', Many Space 1, LitI ''INTO'', Many Space 1, Opt (CHR 0x60),
       LitI tn, Opt (CHR 0x60), Many Space 1, LitI ''VALUES'', Many Space 0]"
  have "insert_pattern tn = ?as @ [Capture AnyChar 1, LitI '';'']"
    by (simp add: insert_pattern_def)
  with assms have "match_atoms (?as @ [Capture AnyChar 1, LitI '';'']) s g = Some (g', r)"
    by (simp only:)
  from match_atoms_append [OF this] obtain k g'' where
    m: "match_atoms [Capture AnyChar 1, LitI '';''] (drop k s) g'' = Some (g', r)"
    by blast
  from m have "first_some (\<lambda>(p, r). match_atoms [LitI '';''] r (id p))
      (filter (\<lambda>(p, r). 1 \<le> length p) (splits (\<lambda>c. True) (drop k s))) = Some (g', r)"
    by (simp add: in_cls_AnyChar del: match_atoms.simps(3))
  from greedy_tail_rest [OF this] have "CHR '';'' \<notin> set r" "CHR '';'' \<in> set (drop k s)"
    by simp_all
  then show ?thesis
    by (auto dest: in_set_dropD)
qed

lemma finditer_no_semicolon: "CHR '';'' \<notin> set s \<Longrightarrow> finditer tn s = []"
proof (induction s)
  case Nil
  have "match_atoms (insert_pattern tn) [] [] = None"
  proof (cases "match_atoms (insert_pattern tn) [] []")
    case (Some m)
    then show ?thesis using insert_pattern_semicolons [of tn "[]" "[]" "fst m" "snd m"] by simp
  qed simp
  then show ?case by (subst finditer.simps) simp
next
  case (Cons c s)
  have "match_atoms (insert_pattern tn) (c # s) [] = None"
  proof (cases "match_atoms (insert_pattern tn) (c # s) []")
    case (Some m)
    then show ?thesis
      using insert_pattern_semicolons [of tn "c # s" "[]" "fst m" "snd m"] Cons.prems by simp
  qed simp
  then have "finditer tn (c # s) = finditer tn s"
    by (subst finditer.simps) simp
  with Cons show ?case by simp
qed

lemma finditer_at_most_one: "length (finditer tn s) \<le> 1"
proof (induction s)
  case Nil
  then show ?case by (simp add: finditer_no_semicolon)
next
  case (Cons c s)
  show ?case
  proof (cases "match_atoms (insert_pattern tn) (c # s) []")
    case None
    then have "finditer tn (c # s) = finditer tn s"
      by (subst finditer.simps) simp
    with Cons show ?thesis by simp
  next
    case (Some m)
    obtain g rest where m: "m = (g, rest)" by (cases m)
    with Some insert_pattern_semicolons have "CHR '';'' \<notin> set rest" by blast
    then have "finditer tn rest = []" by (rule finditer_no_semicolon)
    moreover from Some m have "finditer tn (c # s) = g # finditer tn rest"
      by (subst finditer.simps) simp
    ultimately show ?thesis by simp
  qed
qed

lemmas match_eval = finditer.simps insert_pattern_def ci_eq_def to_lower_def char_of_def bit_0
  is_space_def

text \<open>
  C1 does not hold of the code. The group \<^verbatim>\<open>(.+)\<close> is greedy and under
  \<^verbatim>\<open>re.DOTALL\<close> runs over line ends, so a match goes on to the last semicolon of the
  text and nothing is left to match after it: no text has more than one match. For two
  statements on two lines the one match's group spans both statements, and the assembled
  result is a single record of three fields, \<^verbatim>\<open>1\<close>, the text from \<^verbatim>\<open>A\<close> to
  \<^verbatim>\<open>(2\<close>, and \<^verbatim>\<open>B\<close>, not the two records \<^verbatim>\<open>1, A\<close> and \<^verbatim>\<open>2, B\<close>.
\<close>

theorem greedy_single_match:
  "length (finditer table_name sql_text) \<le> 1
   \<and> finditer ''restaurants''
        (''INSERT INTO restaurants VALUES (1,'A');'' @ [CHR 0x0A]
          @ ''INSERT INTO restaurants VALUES (2,'B');'')
      = [''(1,'A');'' @ [CHR 0x0A] @ ''INSERT INTO restaurants VALUES (2,'B')'']
   \<and> collect_items
        (''INSERT INTO restaurants VALUES (1,'A');'' @ [CHR 0x0A]
          @ ''INSERT INTO restaurants VALUES (2,'B');'') ''restaurants''
      = [[''1'', ''A);'' @ [CHR 0x0A] @ ''INSERT INTO restaurants VALUES (2'', ''B'']]"
proof (intro conjI)
  show "length (finditer table_name sql_text) \<le> 1"
    by (rule finditer_at_most_one)
  show f: "finditer ''restaurants''
        (''INSERT INTO restaurants VALUES (1,'A');'' @ [CHR 0x0A]
          @ ''INSERT INTO restaurants VALUES (2,'B');'')
      = [''(1,'A');'' @ [CHR 0x0A] @ ''INSERT INTO restaurants VALUES (2,'B')'']"
    by (simp add: match_eval)
  show "collect_items
        (''INSERT INTO restaurants VALUES (1,'A');'' @ [CHR 0x0A]
          @ ''INSERT INTO restaurants VALUES (2,'B');'') ''restaurants''
      = [[''1'', ''A);'' @ [CHR 0x0A] @ ''INSERT INTO restaurants VALUES (2'', ''B'']]"
    unfolding collect_items_def f
    by (simp add: split_records_def re_split_def split_pieces.simps record_sep_def startswith_def
          endswith_def tok_defs)
qed

section \<open>The whole parse\<close>

lemmas parse_defs = load_restaurants_def parse_sql_inserts_def materialize_def collect_items_def
  split_records_def re_split_def split_pieces.simps finditer.simps record_sep_def insert_pattern_def
  DataFrame_def rename_columns_def df_empty_def empty_frame_def ci_eq_def to_lower_def
  startswith_def endswith_def

lemma items_example:
  "collect_items
       ''INSERT INTO restaurants VALUES (1,'Cafe A','Cafe',4.1),(2,'Place B','Italian',3.9);''
       ''restaurants''
     = [[''1'', ''Cafe A'', ''Cafe'', ''4.1''], [''2'', ''Place B'', ''Italian'', ''3.9'']]"
  by (simp add: parse_defs tok_defs)

text \<open>
  C2. The text \<^verbatim>\<open>INSERT INTO restaurants VALUES (1,'Cafe A','Cafe',4.1),(2,'Place
  B','Italian',3.9);\<close> read from the SQL file, with no fallback, gives a table of the
  four columns \<^verbatim>\<open>restaurant_id, restaurant_name, cuisine, rating\<close> and the two rows
  \<^verbatim>\<open>1, Cafe A, Cafe, 4.1\<close> and \<^verbatim>\<open>2, Place B, Italian, 3.9\<close>, in that order;
  \<^verbatim>\<open>parse_sql_inserts\<close> alone gives the same rows under the placeholder names.
\<close>

theorem end_to_end:
  "load_restaurants
       (Some ''INSERT INTO restaurants VALUES (1,'Cafe A','Cafe',4.1),(2,'Place B','Italian',3.9);'')
       None
     = Inr \<lparr>columns = [''restaurant_id'', ''restaurant_name'', ''cuisine'', ''rating''],
            rows = [[Some ''1'', Some ''Cafe A'', Some ''Cafe'', Some ''4.1''],
                    [Some ''2'', Some ''Place B'', Some ''Italian'', Some ''3.9'']]\<rparr>
   \<and> parse_sql_inserts
       ''INSERT INTO restaurants VALUES (1,'Cafe A','Cafe',4.1),(2,'Place B','Italian',3.9);''
       ''restaurants''
     = Inr \<lparr>columns = [''col_1'', ''col_2'', ''col_3'', ''col_4''],
            rows = [[Some ''1'', Some ''Cafe A'', Some ''Cafe'', Some ''4.1''],
                    [Some ''2'', Some ''Place B'', Some ''Italian'', Some ''3.9'']]\<rparr>"
  by (simp add: load_restaurants_def parse_sql_inserts_def items_example materialize_def DataFrame_def
        rename_columns_def df_empty_def upt_rec_numeral)

lemma split_pieces_nonempty: "split_pieces cur s \<noteq> []"
proof (induction s arbitrary: cur)
  case Nil
  show ?case by (subst split_pieces.simps) (simp split: option.splits)
next
  case (Cons c s)
  show ?case using Cons by (subst split_pieces.simps) (simp split: option.splits)
qed

lemma split_records_nonempty: "split_records g \<noteq> []"
  by (simp add: split_records_def re_split_def split_pieces_nonempty Let_def)

lemma clean_record_nonempty: "clean_record rec \<noteq> []"
  using scan_values_length [of "[]" rec "[]" False "[]"]
  by (auto simp: clean_record_def split_sql_values_def)

lemma collect_items_empty: "collect_items sql_text tn = [] \<longleftrightarrow> finditer tn sql_text = []"
  by (cases "finditer tn sql_text") (simp_all add: collect_items_def split_records_nonempty)

lemma collect_items_fields: "rec \<in> set (collect_items sql_text tn) \<Longrightarrow> rec \<noteq> []"
  by (auto simp: collect_items_def clean_record_nonempty)

text \<open>
  C7. When no statement matches, \<^verbatim>\<open>parse_sql_inserts\<close> returns the empty table, with
  no rows, and it never raises, whatever the text. \<^verbatim>\<open>load_restaurants\<close> raises
  \<^verbatim>\<open>ValueError\<close> exactly when it parses the SQL file (no fallback) and nothing
  matched; with a fallback table it returns that table and never looks at the SQL. A text
  without a semicolon has no match.
\<close>

theorem empty_parse:
  "(finditer table_name sql_text = [] \<longrightarrow>
      parse_sql_inserts sql_text table_name = Inr empty_frame
      \<and> rows empty_frame = [] \<and> df_empty empty_frame)
   \<and> (\<exists>df. parse_sql_inserts sql_text table_name = Inr df)
   \<and> (load_restaurants (Some sql_text) None = Inl ValueError
        \<longleftrightarrow> finditer ''restaurants'' sql_text = [])
   \<and> load_restaurants sql_file (Some fallback)
        = Inr (fallback\<lparr>columns := map strip (columns fallback)\<rparr>)
   \<and> (CHR '';'' \<notin> set sql_text \<longrightarrow> finditer table_name sql_text = [])"
proof (intro conjI impI)
  assume "finditer table_name sql_text = []"
  then show "parse_sql_inserts sql_text table_name = Inr empty_frame"
    by (simp add: parse_sql_inserts_def materialize_def collect_items_empty)
next
  show "rows empty_frame = []" "df_empty empty_frame"
    by (simp_all add: empty_frame_def df_empty_def)
next
  show "\<exists>df. parse_sql_inserts sql_text table_name = Inr df"
    by (cases "collect_items sql_text table_name = []")
      (simp_all add: parse_sql_inserts_def materialize_Inr, simp add: materialize_def)
next
  show "load_restaurants (Some sql_text) None = Inl ValueError
        \<longleftrightarrow> finditer ''restaurants'' sql_text = []"
  proof (cases "finditer ''restaurants'' sql_text = []")
    case True
    then show ?thesis
      by (simp add: load_restaurants_def parse_sql_inserts_def materialize_def collect_items_empty
            empty_frame_def df_empty_def)
  next
    case False
    then have "collect_items sql_text ''restaurants'' \<noteq> []"
      by (simp add: collect_items_empty)
    from materialize_not_empty [OF this] collect_items_fields
    obtain df where "materialize (collect_items sql_text ''restaurants'') = Inr df" "\<not> df_empty df"
      by blast
    with False show ?thesis
      by (simp add: load_restaurants_def parse_sql_inserts_def)
  qed
next
  show "load_restaurants sql_file (Some fallback)
        = Inr (fallback\<lparr>columns := map strip (columns fallback)\<rparr>)"
    by (simp add: load_restaurants_def)
next
  assume "CHR '';'' \<notin> set sql_text"
  then show "finditer table_name sql_text = []"
    by (rule finditer_no_semicolon)
qed

theorem empty_parse_witness:
  "finditer ''restaurants'' ''CREATE TABLE restaurants (id INT);'' = []
   \<and> parse_sql_inserts ''CREATE TABLE restaurants (id INT);'' ''restaurants'' = Inr empty_frame
   \<and> load_restaurants (Some ''CREATE TABLE restaurants (id INT);'') None = Inl ValueError
   \<and> CHR '';'' \<notin> set ''INSERT INTO restaurants VALUES (1)''
   \<and> finditer ''restaurants'' ''INSERT INTO restaurants VALUES (1)'' = []"
proof -
  have 1: "finditer ''restaurants'' ''CREATE TABLE restaurants (id INT);'' = []"
    by (simp add: match_eval)
  have 2: "CHR '';'' \<notin> set ''INSERT INTO restaurants VALUES (1)''"
    by simp
  from 1 2 empty_parse [of "''restaurants''" "''CREATE TABLE restaurants (id INT);''"]
    empty_parse [of "''restaurants''" "''INSERT INTO restaurants VALUES (1)''"]
  show ?thesis by blast
qed

end
